theory Spec2Isabelle
  imports Main "HOL-Library.Word"
begin

section \<open>Tensor liveness analysis: data model\<close>

text \<open>
  A \<^verbatim>\<open>Var\<close> of the source is a reference to a variable node; the maps of the analyzer
  hash and compare it by the address of the node (\<^verbatim>\<open>ObjectPtrHash\<close>,
  \<^verbatim>\<open>ObjectPtrEqual\<close>). \<open>NullVar\<close> is the undefined reference \<^verbatim>\<open>Var()\<close>.
\<close>

datatype var = NullVar | VarRef nat

fun defined :: "var \<Rightarrow> bool" where
  "defined NullVar = False"
| "defined (VarRef a) = True"

type_synonym VSet = "var set"

type_synonym MapVSet = "var \<rightharpoonup> VSet"

datatype error =
    CheckFailed    \<comment> \<open>a failed \<^verbatim>\<open>CHECK\<close>\<close>
  | OutOfRange     \<comment> \<open>\<^verbatim>\<open>std::out_of_range\<close> thrown by \<^verbatim>\<open>at\<close>\<close>
  | Fatal          \<comment> \<open>\<^verbatim>\<open>LOG(FATAL)\<close>\<close>

text \<open>
  The fields of \<^verbatim>\<open>LivenessAnalyzer\<close> (their names without the trailing underscore), and
  the store of variable nodes: \<open>var_name a\<close> is the name of the node at address \<open>a\<close>, and
  \<open>next_ref\<close> is the first address that no node has been allocated at.
\<close>

record analyzer =
  failure :: bool
  vset :: MapVSet
  vtuple :: "var \<rightharpoonup> var list"
  live :: MapVSet
  label :: "string \<rightharpoonup> 32 word"
  union_find_forest :: "var \<rightharpoonup> var"
  inv_live :: MapVSet
  var_name :: "nat \<rightharpoonup> string"
  next_ref :: nat

section \<open>Public queries\<close>

definition GetTensorVar :: "analyzer \<Rightarrow> var \<Rightarrow> error + var" where
  "GetTensorVar s x =
     (case vset s x of
        None \<Rightarrow> Inl OutOfRange
      | Some vs \<Rightarrow> if card vs \<noteq> 1 then Inr NullVar else Inr (the_elem vs))"

text \<open>
  \<^verbatim>\<open>Find\<close> calls itself on the parent and then redirects \<open>x\<close> to the root it got. On a
  cyclic parent map the recursion does not end, which is the value \<open>None\<close>.
\<close>

partial_function (option) Find :: "analyzer \<Rightarrow> var \<Rightarrow> (error + analyzer \<times> var) option" where
  "Find s x =
     (case union_find_forest s x of
        None \<Rightarrow> Some (Inl CheckFailed)
      | Some p \<Rightarrow>
          if x = p then Some (Inr (s, x))
          else Option.bind (Find s p) (\<lambda>res.
            case res of
              Inl e \<Rightarrow> Some (Inl e)
            | Inr (s1, root) \<Rightarrow>
                Some (Inr (s1\<lparr>union_find_forest := (union_find_forest s1)(x \<mapsto> root)\<rparr>, root))))"

text \<open>\<^verbatim>\<open>std::unordered_map::operator[]\<close>: a missing key is first inserted with the empty set.\<close>

definition subscript :: "MapVSet \<Rightarrow> var \<Rightarrow> MapVSet \<times> VSet" where
  "subscript m k = (case m k of None \<Rightarrow> (m(k \<mapsto> {}), {}) | Some vs \<Rightarrow> (m, vs))"

text \<open>
  \<^verbatim>\<open>Unite\<close>: the object expression \<^verbatim>\<open>inv_live_[fy]\<close> is evaluated before the arguments
  \<^verbatim>\<open>inv_live_.at(fx)\<close>; the range insertion is the union of the two sets, which is the
  set itself when \<open>fx\<close> and \<open>fy\<close> are the same root.
\<close>

definition Unite :: "analyzer \<Rightarrow> var \<Rightarrow> var \<Rightarrow> (error + analyzer \<times> var) option" where
  "Unite s x y =
     Option.bind (Find s x) (\<lambda>rx.
       case rx of
         Inl e \<Rightarrow> Some (Inl e)
       | Inr (s1, fx) \<Rightarrow>
           Option.bind (Find s1 y) (\<lambda>ry.
             case ry of
               Inl e \<Rightarrow> Some (Inl e)
             | Inr (s2, fy) \<Rightarrow>
                 (let s3 = s2\<lparr>union_find_forest := (union_find_forest s2)(fx \<mapsto> fy)\<rparr>;
                      (m, dst) = subscript (inv_live s3) fy
                  in case m fx of
                       None \<Rightarrow> Some (Inl OutOfRange)
                     | Some src \<Rightarrow> Some (Inr (s3\<lparr>inv_live := m(fy \<mapsto> dst \<union> src)\<rparr>, fy)))))"

text \<open>
  \<^verbatim>\<open>Intersect\<close> looks both entries up with \<^verbatim>\<open>at\<close> and searches the first set for an
  element of the second; the order in which the set is walked does not change the answer.
\<close>

definition Intersect :: "analyzer \<Rightarrow> var \<Rightarrow> var \<Rightarrow> error + bool" where
  "Intersect s x y =
     (case inv_live s x of
        None \<Rightarrow> Inl OutOfRange
      | Some sx \<Rightarrow>
          (case inv_live s y of
             None \<Rightarrow> Inl OutOfRange
           | Some sy \<Rightarrow> Inr (\<exists>v\<in>sx. v \<in> sy)))"

section \<open>Creating variables\<close>

text \<open>
  \<^verbatim>\<open>std::to_string\<close> on an \<^verbatim>\<open>int\<close>: the decimal digits, after a minus sign when negative.
  \<open>digit_char\<close> is only applied to numbers below 10.
\<close>

definition digit_char :: "nat \<Rightarrow> char" where
  "digit_char d = ''0123456789'' ! d"

fun digits :: "nat \<Rightarrow> string" where
  "digits n = (if n < 10 then [digit_char n] else digits (n div 10) @ [digit_char (n mod 10)])"

declare digits.simps [simp del]

definition to_string :: "int \<Rightarrow> string" where
  "to_string i = (if i < 0 then CHR ''-'' # digits (nat (- i)) else digits (nat i))"

text \<open>
  Modelled from the spec: \<^verbatim>\<open>MakeVar\<close> is declared in \<^verbatim>\<open>mnm/ir.h\<close>, which is not among
  the sources. A tensor unit is ``an opaque, uniquely-named identifier'': \<open>MakeVar\<close> allocates
  a new variable node carrying the given name and returns the reference to it.
\<close>

definition MakeVar :: "analyzer \<Rightarrow> string \<Rightarrow> analyzer \<times> var" where
  "MakeVar s name =
     (s\<lparr>var_name := (var_name s)(next_ref s \<mapsto> name), next_ref := Suc (next_ref s)\<rparr>,
      VarRef (next_ref s))"

text \<open>
  The counter is an \<^verbatim>\<open>int\<close>, taken as 32 bits in two's complement: \<open>label + 1\<close> wraps,
  and \<open>sint\<close> reads the signed value that is printed.
\<close>

definition CreateTensorVar :: "analyzer \<Rightarrow> string \<Rightarrow> analyzer \<times> var" where
  "CreateTensorVar s name =
     (let l = (case label s name of None \<Rightarrow> 0 | Some l \<Rightarrow> l);
          s1 = s\<lparr>label := (label s)(name \<mapsto> l + 1)\<rparr>;
          fullname = name @ ''_'' @ to_string (sint l)
      in MakeVar s1 fullname)"



text \<open>The name of the node a reference points to; the undefined reference has none.\<close>

fun name_of :: "analyzer \<Rightarrow> var \<Rightarrow> string option" where
  "name_of s NullVar = None"
| "name_of s (VarRef a) = var_name s a"

text \<open>Successive calls of \<^verbatim>\<open>CreateTensorVar\<close> on one analyzer, one per prefix of the list.\<close>

fun create_all :: "analyzer \<Rightarrow> string list \<Rightarrow> analyzer \<times> var list" where
  "create_all s [] = (s, [])"
| "create_all s (p # ps) =
     (let (s1, v) = CreateTensorVar s p; (s2, vs) = create_all s1 ps in (s2, v # vs))"

section \<open>Set operations on unit-sets\<close>

text \<open>The static overloads work on sets: erase every element of the second, insert all of it.\<close>

definition Remove_vset :: "VSet \<Rightarrow> VSet \<Rightarrow> VSet" where
  "Remove_vset vset1 vset2 = vset1 - vset2"

definition Merge_vset :: "VSet \<Rightarrow> VSet \<Rightarrow> VSet" where
  "Merge_vset vset1 vset2 = vset1 \<union> vset2"

definition Remove :: "analyzer \<Rightarrow> var \<Rightarrow> var \<Rightarrow> error + analyzer \<times> var" where
  "Remove s v1 v2 =
     (case vset s v1 of
        None \<Rightarrow> Inl OutOfRange
      | Some vset1 \<Rightarrow>
          (case vset s v2 of
             None \<Rightarrow> Inl OutOfRange
           | Some vset2 \<Rightarrow>
               (let (s1, rs) = CreateTensorVar s ''rs''
                in Inr (s1\<lparr>vset := (vset s1)(rs \<mapsto> Remove_vset vset1 vset2)\<rparr>, rs))))"

definition Merge :: "analyzer \<Rightarrow> var \<Rightarrow> var \<Rightarrow> error + analyzer \<times> var" where
  "Merge s v1 v2 =
     (case vset s v1 of
        None \<Rightarrow> Inl OutOfRange
      | Some vset1 \<Rightarrow>
          (case vset s v2 of
             None \<Rightarrow> Inl OutOfRange
           | Some vset2 \<Rightarrow>
               (let (s1, ms) = CreateTensorVar s ''ms''
                in Inr (s1\<lparr>vset := (vset s1)(ms \<mapsto> Merge_vset vset1 vset2)\<rparr>, ms))))"



section \<open>The liveness step of the backward pass\<close>

text \<open>
  \<^verbatim>\<open>MergeLive\<close> reads the field \<^verbatim>\<open>next_var_\<close> of the backward analyzer, here the argument
  \<open>next_var\<close>. The default value of \<open>def\<close> is \<open>NullVar\<close>.
\<close>

definition MergeLive :: "analyzer \<Rightarrow> var \<Rightarrow> var \<Rightarrow> var \<Rightarrow> error + analyzer \<times> var" where
  "MergeLive s next_var cur def =
     (let (s1, next_line_var) = CreateTensorVar s ''ml''
      in case live s1 next_var of
           None \<Rightarrow> Inl OutOfRange
         | Some l \<Rightarrow>
             (let s2 = s1\<lparr>vset := (vset s1)(next_line_var \<mapsto> l)\<rparr>
              in case (if defined def then Remove s2 next_line_var def
                       else Inr (s2, next_line_var)) of
                   Inl e \<Rightarrow> Inl e
                 | Inr (s3, remain) \<Rightarrow> Merge s3 remain cur))"

section \<open>The tensor-unit allocator\<close>





text \<open>
  Every key of \<open>vset\<close> is a reference to an allocated node: no address from \<open>next_ref\<close> on
  is a key yet.
\<close>

definition keys_allocated :: "analyzer \<Rightarrow> bool" where
  "keys_allocated s \<longleftrightarrow> (\<forall>a. next_ref s \<le> a \<longrightarrow> vset s (VarRef a) = None)"

section \<open>The forest behind the parent map\<close>

text \<open>
  \<open>root_of uf x r\<close>: following the parent links from \<open>x\<close> ends in \<open>r\<close>, a unit that is its own
  parent. A unit on a cycle, or whose chain leaves the keys of the map, has no root.
\<close>

inductive root_of :: "(var \<rightharpoonup> var) \<Rightarrow> var \<Rightarrow> var \<Rightarrow> bool" for uf :: "var \<rightharpoonup> var" where
  root_self: "uf x = Some x \<Longrightarrow> root_of uf x x"
| root_step: "uf x = Some p \<Longrightarrow> p \<noteq> x \<Longrightarrow> root_of uf p r \<Longrightarrow> root_of uf x r"

code_pred root_of .

section \<open>Well-formed forests and sample states\<close>

text \<open>The parent map is a forest when every key has a root.\<close>

definition is_forest :: "(var \<rightharpoonup> var) \<Rightarrow> bool" where
  "is_forest uf \<longleftrightarrow> (\<forall>x. uf x \<noteq> None \<longrightarrow> (\<exists>r. root_of uf x r))"

text \<open>An analyzer with no entries at all.\<close>

definition empty_analyzer :: analyzer where
  "empty_analyzer = \<lparr>failure = False, vset = Map.empty, vtuple = Map.empty, live = Map.empty,
     label = Map.empty, union_find_forest = Map.empty, inv_live = Map.empty,
     var_name = Map.empty, next_ref = 0\<rparr>"

text \<open>A chain of three units: 0 under 1 under the root 2.\<close>

definition chain_state :: analyzer where
  "chain_state = empty_analyzer\<lparr>
     union_find_forest := [VarRef 0 \<mapsto> VarRef 1, VarRef 1 \<mapsto> VarRef 2, VarRef 2 \<mapsto> VarRef 2],
     next_ref := 3\<rparr>"

text \<open>
  Units 2 and 3 after \<open>Unite\<close> of 2 and 3, next to a unit 4 on its own: 2 was live at anchor 10,
  3 at anchor 20 and 4 at anchor 20.
\<close>

definition merged_state :: analyzer where
  "merged_state = empty_analyzer\<lparr>
     union_find_forest := [VarRef 2 \<mapsto> VarRef 3, VarRef 3 \<mapsto> VarRef 3, VarRef 4 \<mapsto> VarRef 4],
     inv_live := [VarRef 2 \<mapsto> {VarRef 10}, VarRef 3 \<mapsto> {VarRef 10, VarRef 20},
                  VarRef 4 \<mapsto> {VarRef 20}],
     next_ref := 21\<rparr>"

text \<open>Variables denoting no unit, one unit and two units.\<close>

definition units_state :: analyzer where
  "units_state = empty_analyzer\<lparr>
     vset := [VarRef 0 \<mapsto> {}, VarRef 1 \<mapsto> {VarRef 1}, VarRef 2 \<mapsto> {VarRef 1, VarRef 3},
              VarRef 3 \<mapsto> {VarRef 3}],
     next_ref := 4\<rparr>"

text \<open>Units 2 and 3 before they are united: two roots with disjoint live ranges.\<close>

definition apart_state :: analyzer where
  "apart_state = empty_analyzer\<lparr>
     union_find_forest := [VarRef 2 \<mapsto> VarRef 2, VarRef 3 \<mapsto> VarRef 3, VarRef 4 \<mapsto> VarRef 4],
     inv_live := [VarRef 2 \<mapsto> {VarRef 10}, VarRef 3 \<mapsto> {VarRef 20}, VarRef 4 \<mapsto> {VarRef 20}],
     next_ref := 21\<rparr>"


text \<open>
  \<open>grows s s'\<close>: the later state \<open>s'\<close> has allocated no fewer nodes than \<open>s\<close>, its keys are
  allocated, and every entry \<open>vset\<close> had in \<open>s\<close> is still there with the same set.
\<close>

definition grows :: "analyzer \<Rightarrow> analyzer \<Rightarrow> bool" where
  "grows s s' \<longleftrightarrow>
     keys_allocated s' \<and> next_ref s \<le> next_ref s' \<and> (\<forall>k. vset s k \<noteq> None \<longrightarrow> vset s' k = vset s k)"

text \<open>
  A line of the backward pass: the anchor 3 of the next line has the live set of units 4
  and 5; variable 2 denotes unit 6 and variable 3 denotes unit 5.
\<close>

definition line_state :: analyzer where
  "line_state = empty_analyzer\<lparr>
     vset := [VarRef 2 \<mapsto> {VarRef 6}, VarRef 3 \<mapsto> {VarRef 5}],
     live := [VarRef 3 \<mapsto> {VarRef 4, VarRef 5}],
     next_ref := 7\<rparr>"

text \<open>The counter \<^verbatim>\<open>CreateTensorVar\<close> reads for a prefix: 0 when the prefix has no entry yet.\<close>

definition counter :: "analyzer \<Rightarrow> string \<Rightarrow> 32 word" where
  "counter s name = (case label s name of None \<Rightarrow> 0 | Some l \<Rightarrow> l)"

text \<open>
  An analyzer for a source program that has a variable named \<^verbatim>\<open>t_0\<close>, the node at
  address 0, denoting one unit.
\<close>

definition source_state :: analyzer where
  "source_state = empty_analyzer\<lparr>
     vset := [VarRef 0 \<mapsto> {VarRef 0}],
     var_name := [0 \<mapsto> ''t_0''],
     next_ref := 1\<rparr>"




section \<open>Properties of the forest\<close>

lemma root_of_is_root: "root_of uf x r \<Longrightarrow> uf r = Some r"
  by (induction rule: root_of.induct) auto

lemma root_of_in_dom: "root_of uf x r \<Longrightarrow> uf x \<noteq> None"
  by (induction rule: root_of.induct) auto

lemma root_of_root: "uf r = Some r \<Longrightarrow> root_of uf r r' \<Longrightarrow> r' = r"
  by (erule root_of.cases) auto

lemma root_of_unique: "root_of uf x r \<Longrightarrow> root_of uf x r' \<Longrightarrow> r' = r"
proof (induction arbitrary: r' rule: root_of.induct)
  case (root_self x)
  then show ?case by (auto dest: root_of_root)
next
  case (root_step x p r)
  from root_step.prems root_step.hyps(1,2) have "root_of uf p r'"
    by (auto elim: root_of.cases)
  then show ?case by (rule root_step.IH)
qed

lemma root_of_redirect_fwd:
  assumes xr: "root_of uf x r"
  shows "root_of uf z q \<Longrightarrow> root_of (uf(x \<mapsto> r)) z q"
proof (induction rule: root_of.induct)
  case (root_self z)
  show ?case
  proof (cases "z = x")
    case True
    with root_self xr have "r = x" by (auto dest: root_of_root)
    with True show ?thesis by (auto intro: root_of.root_self)
  next
    case False
    with root_self show ?thesis by (auto intro: root_of.root_self)
  qed
next
  case (root_step z p q)
  show ?case
  proof (cases "z = x")
    case True
    from root_step.hyps have zq: "root_of uf z q" by (auto intro: root_of.root_step)
    with True xr have qr: "q = r" by (auto dest: root_of_unique)
    have rr: "uf r = Some r" using xr by (rule root_of_is_root)
    have "r \<noteq> x" using root_step.hyps(1,2) True rr by auto
    then have "root_of (uf(x \<mapsto> r)) r r" using rr by (auto intro: root_of.root_self)
    moreover have "(uf(x \<mapsto> r)) x = Some r" by simp
    ultimately have "root_of (uf(x \<mapsto> r)) x r"
      using \<open>r \<noteq> x\<close> by (rule_tac root_of.root_step) 
    with True qr show ?thesis by (simp only:)
  next
    case False
    with root_step show ?thesis by (auto intro: root_of.root_step)
  qed
qed

lemma root_of_redirect_bwd:
  assumes xr: "root_of uf x r"
  shows "root_of (uf(x \<mapsto> r)) z q \<Longrightarrow> root_of uf z q"
proof (induction rule: root_of.induct)
  case (root_self z)
  show ?case
  proof (cases "z = x")
    case True
    with root_self have "r = x" by auto
    with xr True show ?thesis by simp
  next
    case False
    with root_self show ?thesis by (auto intro: root_of.root_self)
  qed
next
  case (root_step z p q)
  show ?case
  proof (cases "z = x")
    case True
    with root_step.hyps(1) have "p = r" by auto
    have rr: "uf r = Some r" using xr by (rule root_of_is_root)
    from root_step.IH \<open>p = r\<close> rr have "q = r" by (auto dest: root_of_root)
    with xr True show ?thesis by simp
  next
    case False
    with root_step show ?thesis by (auto intro: root_of.root_step)
  qed
qed

lemma root_of_redirect: "root_of uf x r \<Longrightarrow> root_of (uf(x \<mapsto> r)) z q \<longleftrightarrow> root_of uf z q"
  by (blast intro: root_of_redirect_fwd root_of_redirect_bwd)

lemma Find_root_aux:
  "root_of uf x r \<Longrightarrow> union_find_forest s = uf \<Longrightarrow>
   \<exists>uf'. Find s x = Some (Inr (s\<lparr>union_find_forest := uf'\<rparr>, r))
     \<and> (\<forall>z q. root_of uf' z q \<longleftrightarrow> root_of uf z q)
     \<and> (\<forall>k. uf' k = None \<longleftrightarrow> uf k = None)"
proof (induction rule: root_of.induct)
  case (root_self x)
  then have "Find s x = Some (Inr (s\<lparr>union_find_forest := uf\<rparr>, x))"
    by (subst Find.simps) simp
  then show ?case by blast
next
  case (root_step x p r)
  from root_step.IH [OF root_step.prems] obtain uf1 where
    f: "Find s p = Some (Inr (s\<lparr>union_find_forest := uf1\<rparr>, r))"
    and eq: "\<forall>z q. root_of uf1 z q \<longleftrightarrow> root_of uf z q"
    and dm: "\<forall>k. uf1 k = None \<longleftrightarrow> uf k = None" by blast
  have "Find s x = Some (Inr (s\<lparr>union_find_forest := uf1(x \<mapsto> r)\<rparr>, r))"
    using root_step.hyps(1,2) root_step.prems f by (subst Find.simps) auto
  moreover have "root_of uf1 x r"
    using eq root_step.hyps by (auto intro: root_of.root_step)
  then have "\<forall>z q. root_of (uf1(x \<mapsto> r)) z q \<longleftrightarrow> root_of uf z q"
    using eq by (simp add: root_of_redirect)
  moreover have "\<forall>k. (uf1(x \<mapsto> r)) k = None \<longleftrightarrow> uf k = None"
    using dm root_step.hyps(1) by auto
  ultimately show ?case by blast
qed


lemma Find_at_root: "union_find_forest s r = Some r \<Longrightarrow> Find s r = Some (Inr (s, r))"
  by (subst Find.simps) simp

lemma chain_roots:
  "root_of (union_find_forest chain_state) (VarRef 2) (VarRef 2)"
  "root_of (union_find_forest chain_state) (VarRef 1) (VarRef 2)"
  "root_of (union_find_forest chain_state) (VarRef 0) (VarRef 2)"
proof -
  show r2: "root_of (union_find_forest chain_state) (VarRef 2) (VarRef 2)"
    by (rule root_self) (simp add: chain_state_def empty_analyzer_def)
  show r1: "root_of (union_find_forest chain_state) (VarRef 1) (VarRef 2)"
    by (rule root_step [OF _ _ r2]) (simp_all add: chain_state_def empty_analyzer_def)
  show "root_of (union_find_forest chain_state) (VarRef 0) (VarRef 2)"
    by (rule root_step [OF _ _ r1]) (simp_all add: chain_state_def empty_analyzer_def)
qed

lemma is_forest_chain: "is_forest (union_find_forest chain_state)"
proof -
  have "\<And>x. union_find_forest chain_state x \<noteq> None \<Longrightarrow> x \<in> {VarRef 0, VarRef 1, VarRef 2}"
    by (simp add: chain_state_def empty_analyzer_def split: if_splits)
  then show ?thesis
    unfolding is_forest_def using chain_roots by blast
qed

section \<open>Find\<close>

text \<open>
  Claim C5. For every unit \<open>x\<close> that is a key of a union-find forest, \<open>Find\<close> returns the
  root \<open>r\<close> that the parent chain of \<open>x\<close> ends in, a unit that is its own parent in the
  forest given and in the forest \<open>Find\<close> leaves; calling \<open>Find\<close> on \<open>r\<close> gives \<open>r\<close> again and
  leaves the state as it is. Path compression changes no unit's root.
\<close>

theorem Find_idempotent:
  assumes "is_forest (union_find_forest s)" and "union_find_forest s x \<noteq> None"
  shows "\<exists>s1 r. Find s x = Some (Inr (s1, r))
    \<and> root_of (union_find_forest s) x r \<and> union_find_forest s r = Some r
    \<and> Find s1 r = Some (Inr (s1, r)) \<and> union_find_forest s1 r = Some r
    \<and> (\<forall>z q. root_of (union_find_forest s1) z q \<longleftrightarrow> root_of (union_find_forest s) z q)"
proof -
  from assms obtain r where r: "root_of (union_find_forest s) x r"
    by (auto simp: is_forest_def)
  from Find_root_aux [OF r refl]
  obtain uf' where f: "Find s x = Some (Inr (s\<lparr>union_find_forest := uf'\<rparr>, r))"
    and eq: "\<And>z q. root_of uf' z q \<longleftrightarrow> root_of (union_find_forest s) z q"
    by blast
  let ?s1 = "s\<lparr>union_find_forest := uf'\<rparr>"
  from r have r0: "union_find_forest s r = Some r" by (rule root_of_is_root)
  from r eq have "root_of uf' x r" by simp
  then have r1: "uf' r = Some r" by (rule root_of_is_root)
  then have again: "Find ?s1 r = Some (Inr (?s1, r))" by (simp add: Find_at_root)
  have keep: "\<forall>z q. root_of (union_find_forest ?s1) z q \<longleftrightarrow> root_of (union_find_forest s) z q"
    using eq by simp
  have "Find s x = Some (Inr (?s1, r))
    \<and> root_of (union_find_forest s) x r \<and> union_find_forest s r = Some r
    \<and> Find ?s1 r = Some (Inr (?s1, r)) \<and> union_find_forest ?s1 r = Some r
    \<and> (\<forall>z q. root_of (union_find_forest ?s1) z q \<longleftrightarrow> root_of (union_find_forest s) z q)"
    using f r r0 again r1 keep by simp
  then show ?thesis by blast
qed

theorem Find_idempotent_witness:
  "is_forest (union_find_forest chain_state) \<and> union_find_forest chain_state (VarRef 0) \<noteq> None
   \<and> (\<exists>s1. Find chain_state (VarRef 0) = Some (Inr (s1, VarRef 2))
         \<and> union_find_forest chain_state (VarRef 2) = Some (VarRef 2)
         \<and> Find s1 (VarRef 2) = Some (Inr (s1, VarRef 2))
         \<and> union_find_forest s1 (VarRef 2) = Some (VarRef 2))"
proof -
  have h2: "union_find_forest chain_state (VarRef 0) \<noteq> None"
    by (simp add: chain_state_def empty_analyzer_def)
  from Find_idempotent [OF is_forest_chain h2] obtain s1 r where
    f: "Find chain_state (VarRef 0) = Some (Inr (s1, r))"
    and r: "root_of (union_find_forest chain_state) (VarRef 0) r"
    and r0: "union_find_forest chain_state r = Some r"
    and again: "Find s1 r = Some (Inr (s1, r))"
    and r1: "union_find_forest s1 r = Some r" by blast
  from chain_roots(3) r have "r = VarRef 2" by (rule root_of_unique)
  with f r0 again r1 is_forest_chain h2 show ?thesis by blast
qed

section \<open>Contract violations\<close>

text \<open>
  Claim C9. \<open>Find\<close> on a unit that is not a key of the forest fails its \<^verbatim>\<open>CHECK\<close>;
  \<open>Intersect\<close> on a unit without an \<open>inv_live\<close> entry and \<open>GetTensorVar\<close> on a variable
  without a \<open>vset\<close> entry raise the out-of-range error of \<^verbatim>\<open>at\<close>. None returns a default.
\<close>

theorem contract_violations_abort:
  "(union_find_forest s x = None \<longrightarrow> Find s x = Some (Inl CheckFailed))
   \<and> (inv_live s a = None \<or> inv_live s b = None \<longrightarrow> Intersect s a b = Inl OutOfRange)
   \<and> (vset s v = None \<longrightarrow> GetTensorVar s v = Inl OutOfRange)"
proof (intro conjI impI)
  assume "union_find_forest s x = None"
  then show "Find s x = Some (Inl CheckFailed)" by (subst Find.simps) simp
next
  assume "inv_live s a = None \<or> inv_live s b = None"
  then show "Intersect s a b = Inl OutOfRange"
    by (auto simp: Intersect_def split: option.splits)
next
  assume "vset s v = None"
  then show "GetTensorVar s v = Inl OutOfRange" by (simp add: GetTensorVar_def)
qed

theorem contract_violations_abort_witness:
  "union_find_forest merged_state (VarRef 8) = None
   \<and> Find merged_state (VarRef 8) = Some (Inl CheckFailed)
   \<and> inv_live merged_state (VarRef 8) = None
   \<and> Intersect merged_state (VarRef 2) (VarRef 8) = Inl OutOfRange
   \<and> vset merged_state (VarRef 2) = None
   \<and> GetTensorVar merged_state (VarRef 2) = Inl OutOfRange"
  using contract_violations_abort [of merged_state "VarRef 8" "VarRef 2" "VarRef 8" "VarRef 2"]
  by (simp add: merged_state_def empty_analyzer_def)

section \<open>Intersect\<close>

text \<open>
  Claim C8. \<open>Intersect a b\<close> and \<open>Intersect b a\<close> give the same result: the test is
  symmetric (and both raise the same error when an entry is missing).
\<close>

theorem Intersect_symmetric: "Intersect s a b = Intersect s b a"
  by (auto simp: Intersect_def split: option.splits)

theorem Intersect_symmetric_witness:
  "Intersect merged_state (VarRef 3) (VarRef 4) = Inr True
   \<and> Intersect merged_state (VarRef 4) (VarRef 3) = Inr True"
proof -
  have h: "Intersect merged_state (VarRef 3) (VarRef 4) = Inr True"
    by (simp add: Intersect_def merged_state_def empty_analyzer_def)
  from h Intersect_symmetric [of merged_state "VarRef 4" "VarRef 3"] show ?thesis
    by (simp only: simp_thms)
qed

text \<open>
  Claim C1, as stated, fails: \<open>Intersect\<close> reads \<open>inv_live\<close> at its arguments and never calls
  \<open>Find\<close>. In \<open>merged_state\<close> the representatives of 2 and 4 are 3 and 4, whose sets share
  anchor 20, and yet \<open>Intersect\<close> of 2 and 4 is false.
\<close>

theorem Intersect_ignores_Find_counterexample:
  "Find merged_state (VarRef 2) = Some (Inr (merged_state, VarRef 3))
   \<and> Find merged_state (VarRef 4) = Some (Inr (merged_state, VarRef 4))
   \<and> inv_live merged_state (VarRef 3) = Some {VarRef 10, VarRef 20}
   \<and> inv_live merged_state (VarRef 4) = Some {VarRef 20}
   \<and> {VarRef 10, VarRef 20} \<inter> {VarRef 20} \<noteq> ({} :: var set)
   \<and> Intersect merged_state (VarRef 2) (VarRef 4) = Inr False"
proof -
  have r2: "union_find_forest merged_state (VarRef 3) = Some (VarRef 3)"
    and r3: "union_find_forest merged_state (VarRef 4) = Some (VarRef 4)"
    and p1: "union_find_forest merged_state (VarRef 2) = Some (VarRef 3)"
    by (simp_all add: merged_state_def empty_analyzer_def)
  have upd: "merged_state\<lparr>union_find_forest := (union_find_forest merged_state)(VarRef 2 \<mapsto> VarRef 3)\<rparr>
    = merged_state"
    using p1 by (simp add: map_upd_triv)
  have "Find merged_state (VarRef 2) = Some (Inr (merged_state, VarRef 3))"
    by (subst Find.simps) (simp add: p1 Find_at_root [OF r2] upd)
  moreover have "Find merged_state (VarRef 4) = Some (Inr (merged_state, VarRef 4))"
    by (rule Find_at_root [OF r3])
  moreover have "Intersect merged_state (VarRef 2) (VarRef 4) = Inr False"
    by (simp add: Intersect_def merged_state_def empty_analyzer_def)
  ultimately show ?thesis by (simp add: merged_state_def empty_analyzer_def)
qed

text \<open>
  Claim C1, amended. For units \<open>a\<close> and \<open>b\<close> with \<open>inv_live\<close> entries, \<open>Intersect a b\<close> is true
  exactly when \<open>inv_live a\<close> and \<open>inv_live b\<close> share an anchor variable. It is the test on the
  representatives when \<open>a\<close> and \<open>b\<close> are roots, which \<open>Find\<close> maps to themselves.
\<close>

theorem Intersect_direct:
  assumes "inv_live s a = Some A" and "inv_live s b = Some B"
  shows "Intersect s a b = Inr (A \<inter> B \<noteq> {})
    \<and> (union_find_forest s a = Some a \<and> union_find_forest s b = Some b \<longrightarrow>
         Find s a = Some (Inr (s, a)) \<and> Find s b = Some (Inr (s, b)))"
  using assms by (auto simp: Intersect_def Find_at_root)

theorem Intersect_direct_witness:
  "Intersect merged_state (VarRef 3) (VarRef 4) = Inr True
   \<and> Find merged_state (VarRef 3) = Some (Inr (merged_state, VarRef 3))
   \<and> Find merged_state (VarRef 4) = Some (Inr (merged_state, VarRef 4))"
proof -
  have a: "inv_live merged_state (VarRef 3) = Some {VarRef 10, VarRef 20}"
    and b: "inv_live merged_state (VarRef 4) = Some {VarRef 20}"
    by (simp_all add: merged_state_def empty_analyzer_def)
  from Intersect_direct [OF a b] show ?thesis
    by (simp add: merged_state_def empty_analyzer_def)
qed

section \<open>GetTensorVar\<close>

text \<open>
  Claim C6. For a variable \<open>x\<close> with a \<open>vset\<close> entry, \<open>GetTensorVar x\<close> is the one unit of
  the set when the set has exactly one element, and the undefined variable when the set is
  empty or has two or more elements.
\<close>

theorem GetTensorVar_single:
  assumes "vset s x = Some vs" and "finite vs"
  shows "(card vs = 1 \<longrightarrow> (\<exists>u. vs = {u} \<and> GetTensorVar s x = Inr u))
    \<and> (vs = {} \<or> 2 \<le> card vs \<longrightarrow> GetTensorVar s x = Inr NullVar)"
proof (intro conjI impI)
  assume "card vs = 1"
  then obtain u where "vs = {u}" by (auto simp: card_1_singleton_iff)
  with assms(1) show "\<exists>u. vs = {u} \<and> GetTensorVar s x = Inr u"
    by (simp add: GetTensorVar_def)
next
  assume "vs = {} \<or> 2 \<le> card vs"
  then have "card vs \<noteq> 1" by auto
  with assms(1) show "GetTensorVar s x = Inr NullVar" by (simp add: GetTensorVar_def)
qed

theorem GetTensorVar_single_witness:
  "GetTensorVar units_state (VarRef 1) = Inr (VarRef 1)
   \<and> GetTensorVar units_state (VarRef 0) = Inr NullVar
   \<and> GetTensorVar units_state (VarRef 2) = Inr NullVar"
proof -
  have e1: "vset units_state (VarRef 1) = Some {VarRef 1}"
    and e0: "vset units_state (VarRef 0) = Some {}"
    and e2: "vset units_state (VarRef 2) = Some {VarRef 1, VarRef 3}"
    by (simp_all add: units_state_def empty_analyzer_def)
  from GetTensorVar_single [OF e1] GetTensorVar_single [OF e0] GetTensorVar_single [OF e2]
  show ?thesis by simp
qed

section \<open>Unite\<close>

lemma root_of_link:
  assumes a: "uf a = Some a" and b: "uf b = Some b"
  shows "root_of uf z q \<Longrightarrow> root_of (uf(a \<mapsto> b)) z (if q = a then b else q)"
proof (induction rule: root_of.induct)
  case (root_self z)
  show ?case
  proof (cases "z = a")
    case True
    show ?thesis
    proof (cases "b = a")
      case True
      with \<open>z = a\<close> show ?thesis by (auto intro: root_of.root_self)
    next
      case False
      then have "root_of (uf(a \<mapsto> b)) b b" using b by (auto intro: root_of.root_self)
      moreover have "(uf(a \<mapsto> b)) a = Some b" by simp
      ultimately have "root_of (uf(a \<mapsto> b)) a b" using False by (rule_tac root_of.root_step)
      with \<open>z = a\<close> show ?thesis by (simp only: simp_thms if_True)
    qed
  next
    case False
    with root_self have "root_of (uf(a \<mapsto> b)) z z" by (auto intro: root_of.root_self)
    with False show ?thesis by (simp only: simp_thms if_False)
  qed
next
  case (root_step z p q)
  from root_step.hyps(1,2) a have "z \<noteq> a" by auto
  with root_step.hyps(1) have "(uf(a \<mapsto> b)) z = Some p" by simp
  then show ?case using root_step.hyps(2) root_step.IH by (rule root_of.root_step)
qed

lemma Unite_result:
  assumes ra: "root_of (union_find_forest s) a ra"
    and rb: "root_of (union_find_forest s) b rb"
    and A: "inv_live s ra = Some A"
  shows "\<exists>uf2. (\<forall>z q. root_of uf2 z q \<longleftrightarrow> root_of (union_find_forest s) z q)
    \<and> Unite s a b = Some (Inr (s\<lparr>union_find_forest := uf2(ra \<mapsto> rb),
         inv_live := (inv_live s)(rb \<mapsto> (case inv_live s rb of None \<Rightarrow> {} | Some B \<Rightarrow> B) \<union> A)\<rparr>,
         rb))"
proof -
  from Find_root_aux [OF ra refl] obtain uf1 where
    f1: "Find s a = Some (Inr (s\<lparr>union_find_forest := uf1\<rparr>, ra))"
    and eq1: "\<forall>z q. root_of uf1 z q \<longleftrightarrow> root_of (union_find_forest s) z q" by blast
  let ?s1 = "s\<lparr>union_find_forest := uf1\<rparr>"
  from rb eq1 have "root_of (union_find_forest ?s1) b rb" by simp
  from Find_root_aux [OF this refl] obtain uf2 where
    f2: "Find ?s1 b = Some (Inr (?s1\<lparr>union_find_forest := uf2\<rparr>, rb))"
    and eq2: "\<forall>z q. root_of uf2 z q \<longleftrightarrow> root_of (union_find_forest ?s1) z q" by blast
  have "Unite s a b = Some (Inr (s\<lparr>union_find_forest := uf2(ra \<mapsto> rb),
         inv_live := (inv_live s)(rb \<mapsto> (case inv_live s rb of None \<Rightarrow> {} | Some B \<Rightarrow> B) \<union> A)\<rparr>,
         rb))"
    using f1 f2 A by (auto simp: Unite_def subscript_def Let_def split: option.splits)
  moreover from eq1 eq2 have "\<forall>z q. root_of uf2 z q \<longleftrightarrow> root_of (union_find_forest s) z q"
    by simp
  ultimately show ?thesis by blast
qed

text \<open>
  Claim C2. For units \<open>a\<close> and \<open>b\<close> of the forest whose roots \<open>ra\<close> and \<open>rb\<close> have \<open>inv_live\<close>
  entries \<open>A\<close> and \<open>B\<close>, \<open>Unite a b\<close> returns, and in the state it leaves \<open>Find a\<close> followed by
  \<open>Find b\<close> give the same representative, the surviving root \<open>rb\<close>, whose \<open>inv_live\<close> set
  contains both \<open>A\<close> and \<open>B\<close>.
\<close>

theorem Unite_merges:
  assumes ra: "root_of (union_find_forest s) a ra"
    and rb: "root_of (union_find_forest s) b rb"
    and A: "inv_live s ra = Some A"
    and B: "inv_live s rb = Some B"
  shows "\<exists>s' s1 s2 R. Unite s a b = Some (Inr (s', rb))
    \<and> Find s' a = Some (Inr (s1, rb)) \<and> Find s1 b = Some (Inr (s2, rb))
    \<and> union_find_forest s' rb = Some rb
    \<and> inv_live s' rb = Some R \<and> A \<subseteq> R \<and> B \<subseteq> R"
proof -
  from Unite_result [OF ra rb A] obtain uf2 where
    eq: "\<forall>z q. root_of uf2 z q \<longleftrightarrow> root_of (union_find_forest s) z q"
    and u: "Unite s a b = Some (Inr (s\<lparr>union_find_forest := uf2(ra \<mapsto> rb),
         inv_live := (inv_live s)(rb \<mapsto> (case inv_live s rb of None \<Rightarrow> {} | Some B \<Rightarrow> B) \<union> A)\<rparr>,
         rb))" by blast
  let ?s' = "s\<lparr>union_find_forest := uf2(ra \<mapsto> rb),
         inv_live := (inv_live s)(rb \<mapsto> (case inv_live s rb of None \<Rightarrow> {} | Some B \<Rightarrow> B) \<union> A)\<rparr>"
  from ra rb eq have ra2: "root_of uf2 a ra" and rb2: "root_of uf2 b rb" by simp_all
  then have rta: "uf2 ra = Some ra" and rtb: "uf2 rb = Some rb"
    by (auto dest: root_of_is_root)
  from root_of_link [OF rta rtb ra2] have la: "root_of (union_find_forest ?s') a rb" by simp
  from root_of_link [OF rta rtb rb2] have lb: "root_of (union_find_forest ?s') b rb" by simp
  from Find_root_aux [OF la refl] obtain uf3 where
    f3: "Find ?s' a = Some (Inr (?s'\<lparr>union_find_forest := uf3\<rparr>, rb))"
    and eq3: "\<forall>z q. root_of uf3 z q \<longleftrightarrow> root_of (union_find_forest ?s') z q" by blast
  from lb eq3 have "root_of (union_find_forest (?s'\<lparr>union_find_forest := uf3\<rparr>)) b rb" by simp
  from Find_root_aux [OF this refl] obtain uf4 where
    f4: "Find (?s'\<lparr>union_find_forest := uf3\<rparr>) b
      = Some (Inr (?s'\<lparr>union_find_forest := uf3\<rparr>\<lparr>union_find_forest := uf4\<rparr>, rb))" by blast
  have root: "union_find_forest ?s' rb = Some rb" using rtb by simp
  have inv: "inv_live ?s' rb = Some (B \<union> A)" using B by simp
  from u f3 f4 root inv show ?thesis by blast
qed

theorem Unite_merges_witness:
  "root_of (union_find_forest apart_state) (VarRef 2) (VarRef 2)
   \<and> root_of (union_find_forest apart_state) (VarRef 3) (VarRef 3)
   \<and> inv_live apart_state (VarRef 2) = Some {VarRef 10}
   \<and> inv_live apart_state (VarRef 3) = Some {VarRef 20}
   \<and> (\<exists>s' s1 s2 R. Unite apart_state (VarRef 2) (VarRef 3) = Some (Inr (s', VarRef 3))
    \<and> Find s' (VarRef 2) = Some (Inr (s1, VarRef 3)) \<and> Find s1 (VarRef 3) = Some (Inr (s2, VarRef 3))
    \<and> union_find_forest s' (VarRef 3) = Some (VarRef 3)
    \<and> inv_live s' (VarRef 3) = Some R \<and> {VarRef 10} \<subseteq> R \<and> {VarRef 20} \<subseteq> R)"
proof -
  have r2: "root_of (union_find_forest apart_state) (VarRef 2) (VarRef 2)"
    by (rule root_self) (simp add: apart_state_def empty_analyzer_def)
  have r3: "root_of (union_find_forest apart_state) (VarRef 3) (VarRef 3)"
    by (rule root_self) (simp add: apart_state_def empty_analyzer_def)
  have a: "inv_live apart_state (VarRef 2) = Some {VarRef 10}"
    and b: "inv_live apart_state (VarRef 3) = Some {VarRef 20}"
    by (simp_all add: apart_state_def empty_analyzer_def)
  from r2 r3 a b Unite_merges [OF r2 r3 a b] show ?thesis by blast
qed

text \<open>
  Claim C10, as stated, fails when \<open>x\<close> and \<open>y\<close> are already in one class. In
  \<open>merged_state\<close> units 2 and 3 both have the root 3; \<open>Unite\<close> of 2 and 3 leaves the state
  as it is, and 3, the former root of the class of 2, is still its own parent.
\<close>

theorem Unite_same_class_counterexample:
  "Find merged_state (VarRef 2) = Some (Inr (merged_state, VarRef 3))
   \<and> Find merged_state (VarRef 3) = Some (Inr (merged_state, VarRef 3))
   \<and> Unite merged_state (VarRef 2) (VarRef 3) = Some (Inr (merged_state, VarRef 3))
   \<and> union_find_forest merged_state (VarRef 3) = Some (VarRef 3)"
proof -
  have r3: "union_find_forest merged_state (VarRef 3) = Some (VarRef 3)"
    and p2: "union_find_forest merged_state (VarRef 2) = Some (VarRef 3)"
    and i3: "inv_live merged_state (VarRef 3) = Some {VarRef 10, VarRef 20}"
    by (simp_all add: merged_state_def empty_analyzer_def)
  have upd: "merged_state\<lparr>union_find_forest := (union_find_forest merged_state)(VarRef 2 \<mapsto> VarRef 3)\<rparr>
    = merged_state"
    using p2 by (simp add: map_upd_triv)
  have upd3: "merged_state\<lparr>union_find_forest := (union_find_forest merged_state)(VarRef 3 \<mapsto> VarRef 3),
      inv_live := (inv_live merged_state)(VarRef 3 \<mapsto> {VarRef 10, VarRef 20})\<rparr>
    = merged_state"
    using r3 i3 by (simp add: map_upd_triv)
  have f2: "Find merged_state (VarRef 2) = Some (Inr (merged_state, VarRef 3))"
    by (subst Find.simps) (simp add: p2 Find_at_root [OF r3] upd)
  have f3: "Find merged_state (VarRef 3) = Some (Inr (merged_state, VarRef 3))"
    by (rule Find_at_root [OF r3])
  have "Unite merged_state (VarRef 2) (VarRef 3) = Some (Inr (merged_state, VarRef 3))"
    by (simp add: Unite_def f2 f3 subscript_def i3 upd3 Let_def)
  with f2 f3 r3 show ?thesis by simp
qed

text \<open>
  Claim C10, amended. For units \<open>x\<close> and \<open>y\<close> of the forest with roots \<open>rx\<close> and \<open>ry\<close>, where
  \<open>rx\<close> has an \<open>inv_live\<close> entry, \<open>Unite x y\<close> returns \<open>ry\<close>, the representative of \<open>y\<close> before
  the call; \<open>ry\<close> is a root afterwards, the parent of \<open>rx\<close> is \<open>ry\<close>, and every unit whose
  root was \<open>rx\<close> has the root \<open>ry\<close>, all other units keeping theirs. When \<open>rx\<close> and \<open>ry\<close>
  differ, \<open>rx\<close> is no longer a root; when they are the same unit, it is still a root and
  every unit keeps its root (the parent links on the way to it may have been shortened by
  \<open>Find\<close>).
\<close>

theorem Unite_grafts:
  assumes rx: "root_of (union_find_forest s) x rx"
    and ry: "root_of (union_find_forest s) y ry"
    and A: "inv_live s rx = Some A"
  shows "\<exists>s'. Unite s x y = Some (Inr (s', ry))
    \<and> union_find_forest s' ry = Some ry
    \<and> union_find_forest s' rx = Some ry
    \<and> (rx \<noteq> ry \<longrightarrow> union_find_forest s' rx \<noteq> Some rx)
    \<and> (rx = ry \<longrightarrow> union_find_forest s' rx = Some rx
          \<and> (\<forall>z q. root_of (union_find_forest s) z q \<longrightarrow> root_of (union_find_forest s') z q))
    \<and> (\<forall>z q. root_of (union_find_forest s) z q \<longrightarrow>
          root_of (union_find_forest s') z (if q = rx then ry else q))"
proof -
  from Unite_result [OF rx ry A] obtain uf2 where
    eq: "\<forall>z q. root_of uf2 z q \<longleftrightarrow> root_of (union_find_forest s) z q"
    and u: "Unite s x y = Some (Inr (s\<lparr>union_find_forest := uf2(rx \<mapsto> ry),
         inv_live := (inv_live s)(ry \<mapsto> (case inv_live s ry of None \<Rightarrow> {} | Some B \<Rightarrow> B) \<union> A)\<rparr>,
         ry))" by blast
  let ?s' = "s\<lparr>union_find_forest := uf2(rx \<mapsto> ry),
         inv_live := (inv_live s)(ry \<mapsto> (case inv_live s ry of None \<Rightarrow> {} | Some B \<Rightarrow> B) \<union> A)\<rparr>"
  from rx ry eq have "root_of uf2 x rx" and "root_of uf2 y ry" by simp_all
  then have rtx: "uf2 rx = Some rx" and rty: "uf2 ry = Some ry"
    by (auto dest: root_of_is_root)
  have "\<forall>z q. root_of (union_find_forest s) z q \<longrightarrow>
          root_of (union_find_forest ?s') z (if q = rx then ry else q)"
    using root_of_link [OF rtx rty] eq by simp
  moreover have "union_find_forest ?s' ry = Some ry" using rty by simp
  moreover have "union_find_forest ?s' rx = Some ry" by simp
  moreover have "rx \<noteq> ry \<longrightarrow> union_find_forest ?s' rx \<noteq> Some rx" by auto
  moreover have "rx = ry \<longrightarrow> union_find_forest ?s' rx = Some rx
          \<and> (\<forall>z q. root_of (union_find_forest s) z q \<longrightarrow> root_of (union_find_forest ?s') z q)"
  proof
    assume same: "rx = ry"
    have "\<And>z q. root_of (union_find_forest s) z q \<Longrightarrow> root_of (union_find_forest ?s') z q"
    proof -
      fix z q assume "root_of (union_find_forest s) z q"
      with eq have "root_of uf2 z q" by simp
      have "(if q = rx then ry else q) = q" using same by simp
      with root_of_link [OF rtx rty \<open>root_of uf2 z q\<close>]
      have "root_of (uf2(rx \<mapsto> ry)) z q" by (simp only:)
      then show "root_of (union_find_forest ?s') z q" by simp
    qed
    with same show "union_find_forest ?s' rx = Some rx
          \<and> (\<forall>z q. root_of (union_find_forest s) z q \<longrightarrow> root_of (union_find_forest ?s') z q)"
      by simp
  qed
  ultimately show ?thesis using u by blast
qed

theorem Unite_grafts_witness:
  "root_of (union_find_forest apart_state) (VarRef 2) (VarRef 2)
   \<and> root_of (union_find_forest apart_state) (VarRef 3) (VarRef 3)
   \<and> inv_live apart_state (VarRef 2) = Some {VarRef 10}
   \<and> (\<exists>s'. Unite apart_state (VarRef 2) (VarRef 3) = Some (Inr (s', VarRef 3))
    \<and> union_find_forest s' (VarRef 3) = Some (VarRef 3)
    \<and> union_find_forest s' (VarRef 2) = Some (VarRef 3)
    \<and> union_find_forest s' (VarRef 2) \<noteq> Some (VarRef 2))
   \<and> root_of (union_find_forest merged_state) (VarRef 2) (VarRef 3)
   \<and> root_of (union_find_forest merged_state) (VarRef 3) (VarRef 3)
   \<and> inv_live merged_state (VarRef 3) = Some {VarRef 10, VarRef 20}
   \<and> (\<exists>s'. Unite merged_state (VarRef 2) (VarRef 3) = Some (Inr (s', VarRef 3))
    \<and> union_find_forest s' (VarRef 3) = Some (VarRef 3)
    \<and> root_of (union_find_forest s') (VarRef 2) (VarRef 3))"
proof -
  have r2: "root_of (union_find_forest apart_state) (VarRef 2) (VarRef 2)"
    by (rule root_self) (simp add: apart_state_def empty_analyzer_def)
  have r3: "root_of (union_find_forest apart_state) (VarRef 3) (VarRef 3)"
    by (rule root_self) (simp add: apart_state_def empty_analyzer_def)
  have a: "inv_live apart_state (VarRef 2) = Some {VarRef 10}"
    by (simp add: apart_state_def empty_analyzer_def)
  have ne: "VarRef 2 \<noteq> VarRef 3" by simp
  have m3: "root_of (union_find_forest merged_state) (VarRef 3) (VarRef 3)"
    by (rule root_self) (simp add: merged_state_def empty_analyzer_def)
  have m2: "root_of (union_find_forest merged_state) (VarRef 2) (VarRef 3)"
    by (rule root_step [OF _ _ m3]) (simp_all add: merged_state_def empty_analyzer_def)
  have b: "inv_live merged_state (VarRef 3) = Some {VarRef 10, VarRef 20}"
    by (simp add: merged_state_def empty_analyzer_def)
  have first: "\<exists>s'. Unite apart_state (VarRef 2) (VarRef 3) = Some (Inr (s', VarRef 3))
    \<and> union_find_forest s' (VarRef 3) = Some (VarRef 3)
    \<and> union_find_forest s' (VarRef 2) = Some (VarRef 3)
    \<and> union_find_forest s' (VarRef 2) \<noteq> Some (VarRef 2)"
    using ne Unite_grafts [OF r2 r3 a] by blast
  have second: "\<exists>s'. Unite merged_state (VarRef 2) (VarRef 3) = Some (Inr (s', VarRef 3))
    \<and> union_find_forest s' (VarRef 3) = Some (VarRef 3)
    \<and> root_of (union_find_forest s') (VarRef 2) (VarRef 3)"
    using m2 Unite_grafts [OF m2 m3 b] by blast
  from r2 r3 a first m2 m3 b second show ?thesis by blast
qed

section \<open>Creating variables and unit-sets\<close>

lemma CreateTensorVar_result:
  "CreateTensorVar s n = (s1, v) \<Longrightarrow>
     v = VarRef (next_ref s) \<and> next_ref s1 = Suc (next_ref s) \<and> vset s1 = vset s
     \<and> live s1 = live s \<and> vtuple s1 = vtuple s"
  by (auto simp: CreateTensorVar_def MakeVar_def Let_def)

lemma keys_allocated_fresh: "keys_allocated s \<Longrightarrow> vset s k \<noteq> None \<Longrightarrow> k \<noteq> VarRef (next_ref s)"
  by (auto simp: keys_allocated_def)

lemma Remove_result:
  assumes "keys_allocated s" and "vset s v1 = Some a" and "vset s v2 = Some b"
  shows "\<exists>s' r. Remove s v1 v2 = Inr (s', r) \<and> grows s s' \<and> vset s' r = Some (a - b)
    \<and> live s' = live s \<and> vtuple s' = vtuple s"
proof -
  obtain s1 v where c: "CreateTensorVar s ''rs'' = (s1, v)" by (cases "CreateTensorVar s ''rs''")
  note r = CreateTensorVar_result [OF c]
  have "Remove s v1 v2 = Inr (s1\<lparr>vset := (vset s1)(v \<mapsto> a - b)\<rparr>, v)"
    using assms c by (simp add: Remove_def Remove_vset_def)
  moreover have "grows s (s1\<lparr>vset := (vset s1)(v \<mapsto> a - b)\<rparr>)"
    using assms(1) r by (auto simp: grows_def keys_allocated_def)
  ultimately show ?thesis using r by auto
qed

lemma Merge_result:
  assumes "keys_allocated s" and "vset s v1 = Some a" and "vset s v2 = Some b"
  shows "\<exists>s' r. Merge s v1 v2 = Inr (s', r) \<and> grows s s' \<and> vset s' r = Some (a \<union> b)
    \<and> live s' = live s \<and> vtuple s' = vtuple s"
proof -
  obtain s1 v where c: "CreateTensorVar s ''ms'' = (s1, v)" by (cases "CreateTensorVar s ''ms''")
  note r = CreateTensorVar_result [OF c]
  have "Merge s v1 v2 = Inr (s1\<lparr>vset := (vset s1)(v \<mapsto> a \<union> b)\<rparr>, v)"
    using assms c by (simp add: Merge_def Merge_vset_def)
  moreover have "grows s (s1\<lparr>vset := (vset s1)(v \<mapsto> a \<union> b)\<rparr>)"
    using assms(1) r by (auto simp: grows_def keys_allocated_def)
  ultimately show ?thesis using r by auto
qed

lemma grows_keeps: "grows s s' \<Longrightarrow> vset s k = Some a \<Longrightarrow> vset s' k = Some a"
  by (auto simp: grows_def)

lemma grows_allocated: "grows s s' \<Longrightarrow> keys_allocated s'"
  by (simp add: grows_def)


lemma MergeLive_start:
  assumes "keys_allocated s" and "live s next_var = Some L"
  shows "\<exists>s2 v. CreateTensorVar s ''ml'' = (fst (CreateTensorVar s ''ml''), v)
    \<and> s2 = (fst (CreateTensorVar s ''ml''))\<lparr>vset := (vset (fst (CreateTensorVar s ''ml'')))(v \<mapsto> L)\<rparr>
    \<and> grows s s2 \<and> vset s2 v = Some L \<and> live (fst (CreateTensorVar s ''ml'')) next_var = Some L"
proof -
  obtain s1 v where c: "CreateTensorVar s ''ml'' = (s1, v)" by (cases "CreateTensorVar s ''ml''")
  note r = CreateTensorVar_result [OF c]
  have "grows s (s1\<lparr>vset := (vset s1)(v \<mapsto> L)\<rparr>)"
    using assms(1) r by (auto simp: grows_def keys_allocated_def)
  then show ?thesis using c r assms(2) by auto
qed

text \<open>
  Claim C3. In a state where \<open>live\<close> has an entry \<open>L\<close> for the anchor \<open>next_var\<close> and the
  operands have \<open>vset\<close> entries, \<open>MergeLive cur def\<close> returns a variable whose \<open>vset\<close> entry
  is \<open>(L - vset def) \<union> vset cur\<close> when \<open>def\<close> is defined, and \<open>L \<union> vset cur\<close> when \<open>def\<close> is
  the undefined variable: the liveness recurrence of the line binding \<open>def\<close>.
\<close>

theorem MergeLive_recurrence:
  assumes ka: "keys_allocated s" and L: "live s next_var = Some L" and C: "vset s cur = Some C"
  shows "(defined d \<longrightarrow> vset s d = Some D \<longrightarrow>
           (\<exists>s' r. MergeLive s next_var cur d = Inr (s', r) \<and> vset s' r = Some ((L - D) \<union> C)))
    \<and> (\<exists>s' r. MergeLive s next_var cur NullVar = Inr (s', r) \<and> vset s' r = Some (L \<union> C))"
proof -
  from MergeLive_start [OF ka L] obtain s1 s2 v where
    c: "CreateTensorVar s ''ml'' = (s1, v)"
    and s2: "s2 = s1\<lparr>vset := (vset s1)(v \<mapsto> L)\<rparr>"
    and g2: "grows s s2" and v: "vset s2 v = Some L" and l1: "live s1 next_var = Some L"
    by blast
  have ka2: "keys_allocated s2" using g2 by (rule grows_allocated)
  have C2: "vset s2 cur = Some C" using g2 C by (rule grows_keeps)
  have undef: "\<exists>s' r. MergeLive s next_var cur NullVar = Inr (s', r) \<and> vset s' r = Some (L \<union> C)"
  proof -
    from Merge_result [OF ka2 v C2] obtain s' r where
      "Merge s2 v cur = Inr (s', r)" and "vset s' r = Some (L \<union> C)" by blast
    then show ?thesis using c l1 s2 by (auto simp: MergeLive_def)
  qed
  have def: "\<exists>s' r. MergeLive s next_var cur d = Inr (s', r) \<and> vset s' r = Some ((L - D) \<union> C)"
    if dd: "defined d" and D: "vset s d = Some D"
  proof -
    have D2: "vset s2 d = Some D" using g2 D by (rule grows_keeps)
    from Remove_result [OF ka2 v D2] obtain s3 remain where
      rm: "Remove s2 v d = Inr (s3, remain)" and g3: "grows s2 s3"
      and rv: "vset s3 remain = Some (L - D)" by blast
    have ka3: "keys_allocated s3" using g3 by (rule grows_allocated)
    have C3: "vset s3 cur = Some C" using g3 C2 by (rule grows_keeps)
    from Merge_result [OF ka3 rv C3] obtain s' r where
      "Merge s3 remain cur = Inr (s', r)" and "vset s' r = Some ((L - D) \<union> C)" by blast
    then show ?thesis using c l1 s2 rm dd by (auto simp: MergeLive_def)
  qed
  from undef def show ?thesis by blast
qed

theorem MergeLive_recurrence_witness:
  "keys_allocated line_state \<and> live line_state (VarRef 3) = Some {VarRef 4, VarRef 5}
   \<and> vset line_state (VarRef 2) = Some {VarRef 6} \<and> defined (VarRef 3)
   \<and> vset line_state (VarRef 3) = Some {VarRef 5}
   \<and> (\<exists>s' r. MergeLive line_state (VarRef 3) (VarRef 2) (VarRef 3) = Inr (s', r)
        \<and> vset s' r = Some {VarRef 4, VarRef 6})
   \<and> (\<exists>s' r. MergeLive line_state (VarRef 3) (VarRef 2) NullVar = Inr (s', r)
        \<and> vset s' r = Some {VarRef 4, VarRef 5, VarRef 6})"
proof -
  have ka: "keys_allocated line_state"
    by (auto simp: keys_allocated_def line_state_def empty_analyzer_def)
  have l: "live line_state (VarRef 3) = Some {VarRef 4, VarRef 5}"
    and c: "vset line_state (VarRef 2) = Some {VarRef 6}"
    and d: "vset line_state (VarRef 3) = Some {VarRef 5}"
    by (simp_all add: line_state_def empty_analyzer_def)
  have e1: "({VarRef 4, VarRef 5} - {VarRef 5}) \<union> {VarRef 6} = {VarRef 4, VarRef 6}"
    and e2: "{VarRef 4, VarRef 5} \<union> {VarRef 6} = {VarRef 4, VarRef 5, VarRef 6}"
    by auto
  from MergeLive_recurrence [OF ka l c, of "VarRef 3" "{VarRef 5}"] ka l c d e1 e2
  show ?thesis by simp
qed

section \<open>The allocator\<close>










lemma keys_allocated_empty: "keys_allocated empty_analyzer"
  by (simp add: keys_allocated_def empty_analyzer_def)

section \<open>Names of synthesized variables\<close>

lemma digit_char_inj: "d < 10 \<Longrightarrow> e < 10 \<Longrightarrow> digit_char d = digit_char e \<Longrightarrow> d = e"
proof -
  assume d: "d < 10" and e: "e < 10" and eq: "digit_char d = digit_char e"
  have dist: "distinct ''0123456789''" by simp
  have len: "length ''0123456789'' = 10" by simp
  from eq have "''0123456789'' ! d = ''0123456789'' ! e" by (simp only: digit_char_def)
  with nth_eq_iff_index_eq [OF dist, of d e] d e len show "d = e" by simp
qed

lemma digit_char_set: "d < 10 \<Longrightarrow> digit_char d \<in> set ''0123456789''"
proof -
  assume "d < 10"
  then have "d < length ''0123456789''" by simp
  then have "''0123456789'' ! d \<in> set ''0123456789''" by (rule nth_mem)
  then show ?thesis by (simp only: digit_char_def)
qed

lemma digits_set: "set (digits n) \<subseteq> set ''0123456789''"
proof (induction n rule: digits.induct)
  case (1 n)
  show ?case
  proof (cases "n < 10")
    case True
    then have "digits n = [digit_char n]" by (subst digits.simps) simp
    with digit_char_set [OF True] show ?thesis by simp
  next
    case False
    then have e: "digits n = digits (n div 10) @ [digit_char (n mod 10)]"
      by (subst digits.simps) simp
    have "digit_char (n mod 10) \<in> set ''0123456789''" by (rule digit_char_set) simp
    with 1 [OF False] e show ?thesis by simp
  qed
qed

lemma digits_nonempty: "digits n \<noteq> []"
  by (subst digits.simps) simp

lemma digits_inj: "digits n = digits m \<Longrightarrow> n = m"
proof (induction n arbitrary: m rule: digits.induct)
  case (1 n)
  show ?case
  proof (cases "n < 10")
    case n: True
    then have dn: "digits n = [digit_char n]" by (subst digits.simps) simp
    show ?thesis
    proof (cases "m < 10")
      case True
      then have "digits m = [digit_char m]" by (subst digits.simps) simp
      with dn "1.prems" have "digit_char n = digit_char m" by simp
      with n True show ?thesis by (rule digit_char_inj)
    next
      case False
      then have "digits m = digits (m div 10) @ [digit_char (m mod 10)]"
        by (subst digits.simps) simp
      with dn "1.prems" digits_nonempty [of "m div 10"] show ?thesis by simp
    qed
  next
    case n: False
    then have dn: "digits n = digits (n div 10) @ [digit_char (n mod 10)]"
      by (subst digits.simps) simp
    show ?thesis
    proof (cases "m < 10")
      case True
      then have "digits m = [digit_char m]" by (subst digits.simps) simp
      with dn "1.prems" digits_nonempty [of "n div 10"] show ?thesis by simp
    next
      case False
      then have "digits m = digits (m div 10) @ [digit_char (m mod 10)]"
        by (subst digits.simps) simp
      with dn "1.prems" have q: "digits (n div 10) = digits (m div 10)"
        and r: "digit_char (n mod 10) = digit_char (m mod 10)" by simp_all
      from "1.IH" [OF n q] have "n div 10 = m div 10" .
      moreover have "n mod 10 = m mod 10" by (rule digit_char_inj [OF _ _ r]) simp_all
      ultimately show ?thesis by (metis mult_div_mod_eq)
    qed
  qed
qed

lemma to_string_no_underscore: "CHR ''_'' \<notin> set (to_string i)"
  using digits_set [of "nat i"] digits_set [of "nat (- i)"] by (auto simp: to_string_def)

lemma to_string_inj: "to_string i = to_string j \<Longrightarrow> i = j"
proof -
  assume eq: "to_string i = to_string j"
  have nominus: "\<And>n. CHR ''-'' \<notin> set (digits n)" using digits_set by auto
  have hd: "\<And>n ds. digits n \<noteq> CHR ''-'' # ds"
  proof
    fix n ds assume "digits n = CHR ''-'' # ds"
    then have "CHR ''-'' \<in> set (digits n)" by simp
    with nominus show False by blast
  qed
  show "i = j"
  proof (cases "i < 0")
    case i: True
    show ?thesis
    proof (cases "j < 0")
      case True
      with i eq have "digits (nat (- i)) = digits (nat (- j))" by (simp add: to_string_def)
      then have "nat (- i) = nat (- j)" by (rule digits_inj)
      with i True show ?thesis by simp
    next
      case False
      with i eq hd [of "nat j" "digits (nat (- i))"] show ?thesis by (simp add: to_string_def)
    qed
  next
    case i: False
    show ?thesis
    proof (cases "j < 0")
      case True
      with i eq hd [of "nat i" "digits (nat (- j))"] show ?thesis by (simp add: to_string_def)
    next
      case False
      with i eq have "digits (nat i) = digits (nat j)" by (simp add: to_string_def)
      then have "nat i = nat j" by (rule digits_inj)
      with i False show ?thesis by simp
    qed
  qed
qed

lemma fullname_inj:
  assumes a: "CHR ''_'' \<notin> set a" and b: "CHR ''_'' \<notin> set b"
    and eq: "p @ ''_'' @ a = q @ ''_'' @ b"
  shows "p = q \<and> a = b"
proof -
  let ?P = "\<lambda>c. c \<noteq> CHR ''_''"
  from eq have "rev (p @ ''_'' @ a) = rev (q @ ''_'' @ b)" by simp
  then have r: "rev a @ CHR ''_'' # rev p = rev b @ CHR ''_'' # rev q" by simp
  have "takeWhile ?P (rev a @ CHR ''_'' # rev p) = rev a"
    using a by (subst takeWhile_append2) auto
  moreover have "takeWhile ?P (rev b @ CHR ''_'' # rev q) = rev b"
    using b by (subst takeWhile_append2) auto
  ultimately have "rev a = rev b" using r by simp
  then have "a = b" by simp
  with eq show ?thesis by simp
qed

lemma name_inj:
  assumes "p @ ''_'' @ to_string (sint (k :: 32 word)) = q @ ''_'' @ to_string (sint (l :: 32 word))"
  shows "p = q \<and> k = l"
proof -
  from fullname_inj [OF to_string_no_underscore to_string_no_underscore assms]
  have "p = q" and "to_string (sint k) = to_string (sint l)" by simp_all
  from this(2) have "sint k = sint l" by (rule to_string_inj)
  then have "k = l" by (rule signed_word_eqI)
  with \<open>p = q\<close> show ?thesis by simp
qed

lemma CreateTensorVar_store:
  "CreateTensorVar s p = (s1, v) \<Longrightarrow>
     v = VarRef (next_ref s) \<and> next_ref s1 = Suc (next_ref s)
     \<and> var_name s1 = (var_name s)(next_ref s \<mapsto> p @ ''_'' @ to_string (sint (counter s p)))
     \<and> (\<forall>q. counter s1 q = (if q = p then counter s p + 1 else counter s q))"
  by (auto simp: CreateTensorVar_def MakeVar_def Let_def counter_def)

lemma create_all_store:
  "create_all s ps = (s', vs) \<Longrightarrow>
     next_ref s' = next_ref s + length ps
     \<and> vs = map VarRef [next_ref s ..< next_ref s + length ps]
     \<and> (\<forall>a < next_ref s. var_name s' a = var_name s a)"
proof (induction ps arbitrary: s s' vs)
  case Nil
  then show ?case by simp
next
  case (Cons p ps)
  obtain s1 v where c: "CreateTensorVar s p = (s1, v)" by (cases "CreateTensorVar s p")
  obtain s2 ws where r: "create_all s1 ps = (s2, ws)" by (cases "create_all s1 ps")
  from Cons.prems c r have e: "s' = s2" "vs = v # ws" by simp_all
  note st = CreateTensorVar_store [OF c] and ih = Cons.IH [OF r]
  have "next_ref s < next_ref s + length (p # ps)" by simp
  then have "[next_ref s ..< next_ref s + length (p # ps)]
      = next_ref s # [Suc (next_ref s) ..< next_ref s + length (p # ps)]"
    by (rule upt_conv_Cons)
  then have "[next_ref s ..< next_ref s + length (p # ps)]
      = next_ref s # [Suc (next_ref s) ..< Suc (next_ref s) + length ps]"
    by simp
  with st ih e show ?case by auto
qed

lemma create_all_names:
  "create_all s ps = (s', vs) \<Longrightarrow> v \<in> set vs \<Longrightarrow>
     \<exists>q k. k < length ps \<and> name_of s' v = Some (q @ ''_'' @ to_string (sint (counter s q + of_nat k)))"
proof (induction ps arbitrary: s s' vs)
  case Nil
  then show ?case by simp
next
  case (Cons p ps)
  obtain s1 w where c: "CreateTensorVar s p = (s1, w)" by (cases "CreateTensorVar s p")
  obtain s2 ws where r: "create_all s1 ps = (s2, ws)" by (cases "create_all s1 ps")
  from Cons.prems(1) c r have e: "s' = s2" "vs = w # ws" by simp_all
  note st = CreateTensorVar_store [OF c] and keep = create_all_store [OF r]
  show ?case
  proof (cases "v = w")
    case True
    have "name_of s2 w = var_name s2 (next_ref s)" using st by simp
    also have "\<dots> = var_name s1 (next_ref s)" using keep st by simp
    also have "\<dots> = Some (p @ ''_'' @ to_string (sint (counter s p + of_nat 0)))" using st by simp
    finally show ?thesis using True e by (intro exI [of _ p] exI [of _ 0]) simp
  next
    case False
    with Cons.prems(2) e have "v \<in> set ws" by simp
    from Cons.IH [OF r this] obtain q k where k: "k < length ps"
      and n: "name_of s2 v = Some (q @ ''_'' @ to_string (sint (counter s1 q + of_nat k)))" by blast
    show ?thesis
    proof (cases "q = p")
      case True
      with st have "counter s1 q + of_nat k = counter s q + of_nat (Suc k)" by simp
      with n k e show ?thesis by (intro exI [of _ q] exI [of _ "Suc k"]) simp
    next
      case False
      with st have "counter s1 q = counter s q" by simp
      with n k e show ?thesis by (intro exI [of _ q] exI [of _ k]) simp
    qed
  qed
qed

lemma create_all_distinct_names:
  "length ps \<le> 2 ^ 32 \<Longrightarrow> create_all s ps = (s', vs) \<Longrightarrow> distinct (map (name_of s') vs)"
proof (induction ps arbitrary: s s' vs)
  case Nil
  then show ?case by simp
next
  case (Cons p ps)
  obtain s1 w where c: "CreateTensorVar s p = (s1, w)" by (cases "CreateTensorVar s p")
  obtain s2 ws where r: "create_all s1 ps = (s2, ws)" by (cases "create_all s1 ps")
  from Cons.prems(2) c r have e: "s' = s2" "vs = w # ws" by simp_all
  note st = CreateTensorVar_store [OF c] and keep = create_all_store [OF r]
  from Cons.prems(1) have len: "length ps < 2 ^ 32" by simp
  then have "length ps \<le> 2 ^ 32" by simp
  from Cons.IH [OF this r] have d: "distinct (map (name_of s2) ws)" .
  have "name_of s2 w = var_name s2 (next_ref s)" using st by simp
  also have "\<dots> = var_name s1 (next_ref s)" using keep st by simp
  also have "\<dots> = Some (p @ ''_'' @ to_string (sint (counter s p)))" using st by simp
  finally have nw: "name_of s2 w = Some (p @ ''_'' @ to_string (sint (counter s p)))" .
  have "name_of s2 w \<notin> set (map (name_of s2) ws)"
  proof
    assume "name_of s2 w \<in> set (map (name_of s2) ws)"
    then obtain v where v: "v \<in> set ws" and same: "name_of s2 v = name_of s2 w" by auto
    from create_all_names [OF r v] obtain q k where k: "k < length ps"
      and n: "name_of s2 v = Some (q @ ''_'' @ to_string (sint (counter s1 q + of_nat k)))" by blast
    from n same nw have "q @ ''_'' @ to_string (sint (counter s1 q + of_nat k))
        = p @ ''_'' @ to_string (sint (counter s p))" by simp
    from name_inj [OF this] have qp: "q = p" and "counter s1 q + of_nat k = counter s p"
      by blast+
    with st qp have "counter s p + (1 + of_nat k) = counter s p" by (simp add: add.assoc)
    then have "(of_nat (Suc k) :: 32 word) = 0" by simp
    moreover have "(of_nat (Suc k) :: 32 word) \<noteq> 0"
      using k len by (intro of_nat_neq_0) simp_all
    ultimately show False by simp
  qed
  with d e show ?case by simp
qed

text \<open>
  Claim C7, as stated, fails for source-program names: \<^verbatim>\<open>CreateTensorVar\<close> consults only
  its own counters. In \<open>source_state\<close> the source program has a variable named \<^verbatim>\<open>t_0\<close>;
  the first variable synthesized with prefix \<^verbatim>\<open>t\<close> is a new node, and its name is
  \<^verbatim>\<open>t_0\<close> as well.
\<close>

theorem synthesized_name_collides_counterexample:
  "name_of source_state (VarRef 0) = Some ''t_0''
   \<and> snd (CreateTensorVar source_state ''t'') = VarRef 1
   \<and> name_of (fst (CreateTensorVar source_state ''t'')) (VarRef 1) = Some ''t_0''
   \<and> name_of (fst (CreateTensorVar source_state ''t'')) (VarRef 0) = Some ''t_0''"
  by (simp add: CreateTensorVar_def MakeVar_def source_state_def empty_analyzer_def
      to_string_def digit_char_def digits.simps)

text \<open>
  Claim C7, amended. In a run of at most \<open>2 ^ 32\<close> calls of \<^verbatim>\<open>CreateTensorVar\<close> on one
  analyzer (so that no counter wraps), the calls return pairwise distinct variables with
  pairwise distinct full names, each a node allocated by its call and so distinct from
  every variable that existed before; the names are not compared with those of the
  source program.
\<close>

theorem synthesized_names_distinct:
  assumes len: "length ps \<le> 2 ^ 32" and run: "create_all s ps = (s', vs)"
  shows "length vs = length ps \<and> distinct vs \<and> distinct (map (name_of s') vs)
    \<and> (\<forall>v\<in>set vs. name_of s' v \<noteq> None \<and> (\<exists>a\<ge>next_ref s. v = VarRef a))"
proof -
  note st = create_all_store [OF run]
  have "length vs = length ps" using st by simp
  moreover have "distinct vs" using st by (simp add: distinct_map inj_on_def)
  moreover have "distinct (map (name_of s') vs)"
    using len run by (rule create_all_distinct_names)
  moreover have "\<forall>v\<in>set vs. name_of s' v \<noteq> None \<and> (\<exists>a\<ge>next_ref s. v = VarRef a)"
  proof
    fix v assume v: "v \<in> set vs"
    from create_all_names [OF run v] have "name_of s' v \<noteq> None" by auto
    moreover from v st have "\<exists>a\<ge>next_ref s. v = VarRef a" by auto
    ultimately show "name_of s' v \<noteq> None \<and> (\<exists>a\<ge>next_ref s. v = VarRef a)" by simp
  qed
  ultimately show ?thesis by simp
qed

theorem synthesized_names_distinct_witness:
  "length [''t'', ''n'', ''t''] \<le> 2 ^ 32
   \<and> distinct (snd (create_all source_state [''t'', ''n'', ''t'']))
   \<and> distinct (map (name_of (fst (create_all source_state [''t'', ''n'', ''t''])))
        (snd (create_all source_state [''t'', ''n'', ''t''])))"
proof -
  have len: "length [''t'', ''n'', ''t''] \<le> 2 ^ 32" by simp
  have run: "create_all source_state [''t'', ''n'', ''t'']
    = (fst (create_all source_state [''t'', ''n'', ''t'']),
       snd (create_all source_state [''t'', ''n'', ''t'']))" by simp
  from synthesized_names_distinct [OF len run] len show ?thesis by blast
qed

section \<open>What the allocator returns\<close>









end
